theory Spec2Isabelle
  imports Main "HOL-Library.Word"
begin

unbundle bit_operations_syntax

section \<open>Data of the crypto layer (src/src/lib/crypto.ts)\<close>

text \<open>
  A \<^verbatim>\<open>Uint8Array\<close> is a list of 8-bit words, a JavaScript string a list of UTF-16 code
  units. A \<^verbatim>\<open>Blob\<close> carries its bytes and its MIME type. Every function of the module is
  \<^verbatim>\<open>async\<close>; a rejected promise is the \<open>Inl\<close> of an \<open>error + 'a\<close>, a fulfilled one the
  \<open>Inr\<close>. The random bytes that \<^verbatim>\<open>crypto.getRandomValues\<close> writes are an explicit argument
  of the function that draws them.
\<close>

type_synonym byte = "8 word"
type_synonym bytes = "byte list"
type_synonym jsstring = "16 word list"

datatype error =
    InvalidCharacterError
  | InvalidAccessError
  | NotSupportedError
  | OperationError
  | SyntaxError
  | RangeError

record Blob =
  data :: bytes
  mime :: string

datatype key_usage = Encrypt | Decrypt | DeriveBits | DeriveKey

datatype key_algorithm = Pbkdf2 | AesGcm nat

record CryptoKey =
  handle :: bytes
  algorithm :: key_algorithm
  extractable :: bool
  usages :: "key_usage list"

record AesGcmParams =
  gcm_iv :: bytes
  gcm_additionalData :: "bytes option"

datatype salt_arg = SaltBytes bytes | SaltString jsstring

text \<open>
  The cryptographic primitives behind \<^verbatim>\<open>crypto.subtle\<close> are not part of the repository:
  they are a parameter of every function that reaches them. \<open>aes_gcm_seal k iv aad p\<close> is
  AES-GCM encryption with a 128-bit tag appended to the ciphertext, \<open>aes_gcm_open\<close> its
  inverse, which answers \<open>None\<close> when the tag does not verify.
\<close>

record primitives =
  sha256 :: "bytes \<Rightarrow> bytes"
  aes_gcm_seal :: "bytes \<Rightarrow> bytes \<Rightarrow> bytes \<Rightarrow> bytes \<Rightarrow> bytes"
  aes_gcm_open :: "bytes \<Rightarrow> bytes \<Rightarrow> bytes \<Rightarrow> bytes \<Rightarrow> bytes option"

definition gcm_correct :: "primitives \<Rightarrow> bool" where
  "gcm_correct P \<longleftrightarrow>
     (\<forall>k iv aad p.
        aes_gcm_open P k iv aad (aes_gcm_seal P k iv aad p) = Some p \<and>
        length (aes_gcm_seal P k iv aad p) = length p + 16)"

section \<open>Base64: \<^verbatim>\<open>btoa(String.fromCharCode(...bytes))\<close> and \<^verbatim>\<open>Uint8Array.from(atob(s), c => c.charCodeAt(0))\<close>\<close>

definition b64_char :: "nat \<Rightarrow> 16 word" where
  "b64_char i =
     (if i < 26 then of_nat (65 + i)
      else if i < 52 then of_nat (97 + (i - 26))
      else if i < 62 then of_nat (48 + (i - 52))
      else if i = 62 then 43
      else 47)"

definition b64_value :: "16 word \<Rightarrow> nat option" where
  "b64_value c =
     (let n = unat c in
      if 65 \<le> n \<and> n \<le> 90 then Some (n - 65)
      else if 97 \<le> n \<and> n \<le> 122 then Some (n - 71)
      else if 48 \<le> n \<and> n \<le> 57 then Some (n + 4)
      else if n = 43 then Some 62
      else if n = 47 then Some 63
      else None)"

fun b64_sextets :: "bytes \<Rightarrow> byte list" where
  "b64_sextets (a # b # c # rest) =
     drop_bit 2 a # (push_bit 4 (take_bit 2 a) OR drop_bit 4 b) #
     (push_bit 2 (take_bit 4 b) OR drop_bit 6 c) # (take_bit 6 c) # b64_sextets rest"
| "b64_sextets [a, b] =
     [drop_bit 2 a, push_bit 4 (take_bit 2 a) OR drop_bit 4 b, push_bit 2 (take_bit 4 b)]"
| "b64_sextets [a] = [drop_bit 2 a, push_bit 4 (take_bit 2 a)]"
| "b64_sextets [] = []"

fun b64_padding :: "bytes \<Rightarrow> nat" where
  "b64_padding (a # b # c # rest) = b64_padding rest"
| "b64_padding [a, b] = 1"
| "b64_padding [a] = 2"
| "b64_padding [] = 0"

definition btoa_bytes :: "bytes \<Rightarrow> jsstring" where
  "btoa_bytes bs =
     map (\<lambda>s. b64_char (unat s)) (b64_sextets bs) @ replicate (b64_padding bs) 61"

definition ascii_whitespace :: "16 word \<Rightarrow> bool" where
  "ascii_whitespace c \<longleftrightarrow> c = 9 \<or> c = 10 \<or> c = 12 \<or> c = 13 \<or> c = 32"

definition strip_padding :: "jsstring \<Rightarrow> jsstring" where
  "strip_padding d =
     (if length d mod 4 = 0 then
        (if 2 \<le> length d \<and> drop (length d - 2) d = [61, 61] then take (length d - 2) d
         else if 1 \<le> length d \<and> drop (length d - 1) d = [61] then take (length d - 1) d
         else d)
      else d)"

fun b64_unsextets :: "byte list \<Rightarrow> bytes" where
  "b64_unsextets (s0 # s1 # s2 # s3 # rest) =
     (push_bit 2 s0 OR drop_bit 4 s1) # (push_bit 4 s1 OR drop_bit 2 s2) #
     (push_bit 6 s2 OR s3) # b64_unsextets rest"
| "b64_unsextets [s0, s1, s2] = [push_bit 2 s0 OR drop_bit 4 s1, push_bit 4 s1 OR drop_bit 2 s2]"
| "b64_unsextets [s0, s1] = [push_bit 2 s0 OR drop_bit 4 s1]"
| "b64_unsextets _ = []"

fun those_values :: "jsstring \<Rightarrow> nat list option" where
  "those_values [] = Some []"
| "those_values (c # cs) =
     (case b64_value c of
        None \<Rightarrow> None
      | Some v \<Rightarrow> (case those_values cs of None \<Rightarrow> None | Some vs \<Rightarrow> Some (v # vs)))"

text \<open>
  \<open>btoa_bytes\<close> is the base64 text of a byte array. The spread of the array into the
  arguments of \<^verbatim>\<open>String.fromCharCode\<close> is taken to succeed: the limit an engine puts on
  the number of arguments is not part of the model.
\<close>

text \<open>
  \<open>atob_bytes\<close> is the forgiving base64 decoding of \<^verbatim>\<open>atob\<close>: ASCII whitespace is dropped,
  one or two trailing \<^verbatim>\<open>=\<close> are removed from a string whose length is a multiple of four,
  a length of 1 modulo 4 or a character outside the alphabet raises InvalidCharacterError.
\<close>

definition atob_bytes :: "jsstring \<Rightarrow> error + bytes" where
  "atob_bytes s =
     (let d = strip_padding (filter (\<lambda>c. \<not> ascii_whitespace c) s) in
      if length d mod 4 = 1 then Inl InvalidCharacterError
      else (case those_values d of
              None \<Rightarrow> Inl InvalidCharacterError
            | Some vs \<Rightarrow> Inr (b64_unsextets (map of_nat vs))))"

section \<open>UTF-8: \<^verbatim>\<open>new TextEncoder().encode\<close> and \<^verbatim>\<open>new TextDecoder().decode\<close>\<close>

definition high_surrogate :: "16 word \<Rightarrow> bool" where
  "high_surrogate u \<longleftrightarrow> 0xD800 \<le> unat u \<and> unat u \<le> 0xDBFF"

definition low_surrogate :: "16 word \<Rightarrow> bool" where
  "low_surrogate u \<longleftrightarrow> 0xDC00 \<le> unat u \<and> unat u \<le> 0xDFFF"

text \<open>
  The scalar values of a JavaScript string, as the encoder reads it: a surrogate pair is
  one code point, an unpaired surrogate becomes U+FFFD.
\<close>

fun scalar_values :: "jsstring \<Rightarrow> nat list" where
  "scalar_values [] = []"
| "scalar_values [u] = [if high_surrogate u \<or> low_surrogate u then 0xFFFD else unat u]"
| "scalar_values (u # v # rest) =
     (if high_surrogate u \<and> low_surrogate v
        then (0x10000 + (unat u - 0xD800) * 0x400 + (unat v - 0xDC00)) # scalar_values rest
      else if high_surrogate u \<or> low_surrogate u then 0xFFFD # scalar_values (v # rest)
      else unat u # scalar_values (v # rest))"

definition utf8_bytes :: "nat \<Rightarrow> bytes" where
  "utf8_bytes c =
     (if c \<le> 0x7F then [of_nat c]
      else if c \<le> 0x7FF then [of_nat (0xC0 + c div 64), of_nat (0x80 + c mod 64)]
      else if c \<le> 0xFFFF then
        [of_nat (0xE0 + c div 4096), of_nat (0x80 + c div 64 mod 64), of_nat (0x80 + c mod 64)]
      else
        [of_nat (0xF0 + c div 262144), of_nat (0x80 + c div 4096 mod 64),
         of_nat (0x80 + c div 64 mod 64), of_nat (0x80 + c mod 64)])"

definition TextEncoder_encode :: "jsstring \<Rightarrow> bytes" where
  "TextEncoder_encode s = concat (map utf8_bytes (scalar_values s))"

record utf8_state =
  code_point :: nat
  bytes_seen :: nat
  bytes_needed :: nat
  lower_boundary :: nat
  upper_boundary :: nat

definition utf8_init :: utf8_state where
  "utf8_init =
     \<lparr>code_point = 0, bytes_seen = 0, bytes_needed = 0,
      lower_boundary = 0x80, upper_boundary = 0xBF\<rparr>"

text \<open>
  The decoder of the Encoding Standard, not fatal: a malformed sequence yields U+FFFD and
  the byte that broke it is read again.
\<close>

function utf8_decoder :: "utf8_state \<Rightarrow> bytes \<Rightarrow> nat list" where
  "utf8_decoder st [] = (if bytes_needed st \<noteq> 0 then [0xFFFD] else [])"
| "utf8_decoder st (b # bs) =
     (if bytes_needed st = 0 then
        (if unat b \<le> 0x7F then unat b # utf8_decoder st bs
         else if 0xC2 \<le> unat b \<and> unat b \<le> 0xDF then
           utf8_decoder (st\<lparr>bytes_needed := 1, code_point := unat b mod 32\<rparr>) bs
         else if 0xE0 \<le> unat b \<and> unat b \<le> 0xEF then
           utf8_decoder
             (st\<lparr>lower_boundary := (if unat b = 0xE0 then 0xA0 else lower_boundary st),
                 upper_boundary := (if unat b = 0xED then 0x9F else upper_boundary st),
                 bytes_needed := 2, code_point := unat b mod 16\<rparr>) bs
         else if 0xF0 \<le> unat b \<and> unat b \<le> 0xF4 then
           utf8_decoder
             (st\<lparr>lower_boundary := (if unat b = 0xF0 then 0x90 else lower_boundary st),
                 upper_boundary := (if unat b = 0xF4 then 0x8F else upper_boundary st),
                 bytes_needed := 3, code_point := unat b mod 8\<rparr>) bs
         else 0xFFFD # utf8_decoder st bs)
      else if unat b < lower_boundary st \<or> upper_boundary st < unat b then
        0xFFFD # utf8_decoder utf8_init (b # bs)
      else if Suc (bytes_seen st) \<noteq> bytes_needed st then
        utf8_decoder
          (st\<lparr>lower_boundary := 0x80, upper_boundary := 0xBF,
              code_point := code_point st * 64 + unat b mod 64,
              bytes_seen := Suc (bytes_seen st)\<rparr>) bs
      else (code_point st * 64 + unat b mod 64) # utf8_decoder utf8_init bs)"
  by pat_completeness auto
termination
  by (relation "measure (\<lambda>(st, bs). 2 * length bs + (if bytes_needed st = 0 then 0 else 1))")
     (auto simp: utf8_init_def)

definition utf16_units :: "nat \<Rightarrow> jsstring" where
  "utf16_units c =
     (if c < 0x10000 then [of_nat c]
      else [of_nat (0xD800 + (c - 0x10000) div 0x400), of_nat (0xDC00 + (c - 0x10000) mod 0x400)])"

definition strip_bom :: "bytes \<Rightarrow> bytes" where
  "strip_bom bs = (if take 3 bs = [0xEF, 0xBB, 0xBF] then drop 3 bs else bs)"

text \<open>
  \<^verbatim>\<open>new TextDecoder()\<close> has \<^verbatim>\<open>ignoreBOM\<close> false: a leading byte order mark EF BB BF is
  consumed and is not part of the decoded string.
\<close>

definition TextDecoder_decode :: "bytes \<Rightarrow> jsstring" where
  "TextDecoder_decode bs = concat (map utf16_units (utf8_decoder utf8_init (strip_bom bs)))"

section \<open>The Web Crypto operations the module calls\<close>

text \<open>
  PBKDF2 (RFC 8018) with HMAC (RFC 2104) over the SHA-256 of the primitives, whose block
  is 64 bytes and whose digest is 32 bytes.
\<close>

definition hmac_sha256 :: "primitives \<Rightarrow> bytes \<Rightarrow> bytes \<Rightarrow> bytes" where
  "hmac_sha256 P k m =
     (let k0 = (if 64 < length k then sha256 P k else k);
          kp = k0 @ replicate (64 - length k0) 0
      in sha256 P (map (\<lambda>b. b XOR 0x5C) kp @ sha256 P (map (\<lambda>b. b XOR 0x36) kp @ m)))"

primrec pbkdf2_rounds :: "primitives \<Rightarrow> bytes \<Rightarrow> nat \<Rightarrow> bytes \<Rightarrow> bytes \<Rightarrow> bytes" where
  "pbkdf2_rounds P pw 0 u acc = acc"
| "pbkdf2_rounds P pw (Suc n) u acc =
     pbkdf2_rounds P pw n (hmac_sha256 P pw u) (map2 (XOR) acc (hmac_sha256 P pw u))"

definition int32_be :: "nat \<Rightarrow> bytes" where
  "int32_be i = [of_nat (i div 16777216), of_nat (i div 65536), of_nat (i div 256), of_nat i]"

definition pbkdf2_block :: "primitives \<Rightarrow> bytes \<Rightarrow> bytes \<Rightarrow> nat \<Rightarrow> nat \<Rightarrow> bytes" where
  "pbkdf2_block P pw salt c i =
     pbkdf2_rounds P pw (c - 1) (hmac_sha256 P pw (salt @ int32_be i))
       (hmac_sha256 P pw (salt @ int32_be i))"

definition pbkdf2_hmac_sha256 :: "primitives \<Rightarrow> bytes \<Rightarrow> bytes \<Rightarrow> nat \<Rightarrow> nat \<Rightarrow> bytes" where
  "pbkdf2_hmac_sha256 P pw salt c dkLen =
     take dkLen (concat (map (pbkdf2_block P pw salt c) [1 ..< Suc ((dkLen + 31) div 32)]))"

text \<open>
  \<^verbatim>\<open>importKey('raw', keyData, {name: 'PBKDF2'}, extractable, usages)\<close>: a PBKDF2 key may
  only derive, and is never extractable.
\<close>

definition subtle_importKey_PBKDF2 :: "bytes \<Rightarrow> bool \<Rightarrow> key_usage list \<Rightarrow> error + CryptoKey" where
  "subtle_importKey_PBKDF2 keyData ext us =
     (if \<not> list_all (\<lambda>u. u = DeriveKey \<or> u = DeriveBits) us then Inl SyntaxError
      else if ext then Inl SyntaxError
      else Inr \<lparr>handle = keyData, algorithm = Pbkdf2, extractable = False, usages = us\<rparr>)"

text \<open>
  \<^verbatim>\<open>deriveKey({name: 'PBKDF2', salt, iterations, hash: 'SHA-256'}, baseKey,
  {name: 'AES-GCM', length}, extractable, usages)\<close>.
\<close>

definition subtle_deriveKey_PBKDF2 ::
  "primitives \<Rightarrow> bytes \<Rightarrow> nat \<Rightarrow> CryptoKey \<Rightarrow> nat \<Rightarrow> bool \<Rightarrow> key_usage list \<Rightarrow> error + CryptoKey" where
  "subtle_deriveKey_PBKDF2 P salt iterations baseKey len ext us =
     (if algorithm baseKey \<noteq> Pbkdf2 then Inl InvalidAccessError
      else if DeriveKey \<notin> set (usages baseKey) then Inl InvalidAccessError
      else if len \<noteq> 128 \<and> len \<noteq> 192 \<and> len \<noteq> 256 then Inl OperationError
      else if iterations = 0 then Inl OperationError
      else if \<not> list_all (\<lambda>u. u = Encrypt \<or> u = Decrypt) us then Inl SyntaxError
      else if us = [] then Inl SyntaxError
      else Inr \<lparr>handle = pbkdf2_hmac_sha256 P (handle baseKey) salt iterations (len div 8),
                algorithm = AesGcm len, extractable = ext, usages = us\<rparr>)"

definition is_aes_gcm :: "key_algorithm \<Rightarrow> bool" where
  "is_aes_gcm a = (case a of AesGcm n \<Rightarrow> True | Pbkdf2 \<Rightarrow> False)"

definition additional_data :: "AesGcmParams \<Rightarrow> bytes" where
  "additional_data params = (case gcm_additionalData params of None \<Rightarrow> [] | Some a \<Rightarrow> a)"

text \<open>
  \<^verbatim>\<open>encrypt\<close> and \<^verbatim>\<open>decrypt\<close> with \<^verbatim>\<open>{name: 'AES-GCM', iv}\<close>: the tag has the default
  length of 128 bits, and absent additional data are empty. A failed tag check, and a
  ciphertext shorter than the tag, are an OperationError.
\<close>

definition subtle_encrypt :: "primitives \<Rightarrow> AesGcmParams \<Rightarrow> CryptoKey \<Rightarrow> bytes \<Rightarrow> error + bytes" where
  "subtle_encrypt P params key plaintext =
     (if \<not> is_aes_gcm (algorithm key) then Inl InvalidAccessError
      else if Encrypt \<notin> set (usages key) then Inl InvalidAccessError
      else Inr (aes_gcm_seal P (handle key) (gcm_iv params) (additional_data params) plaintext))"

definition subtle_decrypt :: "primitives \<Rightarrow> AesGcmParams \<Rightarrow> CryptoKey \<Rightarrow> bytes \<Rightarrow> error + bytes" where
  "subtle_decrypt P params key ciphertext =
     (if \<not> is_aes_gcm (algorithm key) then Inl InvalidAccessError
      else if Decrypt \<notin> set (usages key) then Inl InvalidAccessError
      else if length ciphertext < 16 then Inl OperationError
      else (case aes_gcm_open P (handle key) (gcm_iv params) (additional_data params) ciphertext of
              None \<Rightarrow> Inl OperationError
            | Some plaintext \<Rightarrow> Inr plaintext))"

text \<open>\<^verbatim>\<open>exportKey('raw', key)\<close> refuses a key that was not created extractable.\<close>

definition subtle_exportKey_raw :: "CryptoKey \<Rightarrow> error + bytes" where
  "subtle_exportKey_raw key =
     (if \<not> is_aes_gcm (algorithm key) then Inl NotSupportedError
      else if \<not> extractable key then Inl InvalidAccessError
      else Inr (handle key))"

text \<open>
  \<^verbatim>\<open>Blob.slice(start, end)\<close> clamps both positions to the size; \<^verbatim>\<open>TypedArray.set\<close>
  raises RangeError when the source does not fit at the offset.
\<close>

definition blob_size :: "Blob \<Rightarrow> nat" where
  "blob_size b = length (data b)"

definition blob_slice :: "Blob \<Rightarrow> nat \<Rightarrow> nat \<Rightarrow> Blob" where
  "blob_slice b start fin =
     \<lparr>data = take (min fin (blob_size b) - min start (blob_size b))
               (drop (min start (blob_size b)) (data b)),
      mime = []\<rparr>"

definition array_set :: "bytes \<Rightarrow> bytes \<Rightarrow> nat \<Rightarrow> error + bytes" where
  "array_set target source offset =
     (if length target < offset + length source then Inl RangeError
      else Inr (take offset target @ source @ drop (offset + length source) target))"

section \<open>The module: key derivation, text and file encryption, verifier\<close>

definition PBKDF2_ITERATIONS :: nat where
  "PBKDF2_ITERATIONS = 200000"

definition SALT_LENGTH :: nat where
  "SALT_LENGTH = 16"

definition IV_LENGTH :: nat where
  "IV_LENGTH = 12"

definition KEY_LENGTH :: nat where
  "KEY_LENGTH = 256"

definition deriveKey :: "primitives \<Rightarrow> jsstring \<Rightarrow> salt_arg \<Rightarrow> error + CryptoKey" where
  "deriveKey P roomCode salt =
     (case (case salt of SaltString s \<Rightarrow> atob_bytes s | SaltBytes b \<Rightarrow> Inr b) of
        Inl e \<Rightarrow> Inl e
      | Inr saltArray \<Rightarrow>
          (case subtle_importKey_PBKDF2 (TextEncoder_encode roomCode) False [DeriveBits, DeriveKey] of
             Inl e \<Rightarrow> Inl e
           | Inr keyMaterial \<Rightarrow>
               subtle_deriveKey_PBKDF2 P saltArray PBKDF2_ITERATIONS keyMaterial KEY_LENGTH
                 False [Encrypt, Decrypt]))"

text \<open>\<open>encryptString\<close> answers the pair (ciphertext, iv), both base64; \<open>iv\<close> is the random draw.\<close>

definition encryptString ::
  "primitives \<Rightarrow> bytes \<Rightarrow> jsstring \<Rightarrow> CryptoKey \<Rightarrow> error + (jsstring \<times> jsstring)" where
  "encryptString P iv plaintext key =
     (case subtle_encrypt P \<lparr>gcm_iv = iv, gcm_additionalData = None\<rparr> key
             (TextEncoder_encode plaintext) of
        Inl e \<Rightarrow> Inl e
      | Inr ciphertext \<Rightarrow> Inr (btoa_bytes ciphertext, btoa_bytes iv))"

definition decryptString ::
  "primitives \<Rightarrow> jsstring \<Rightarrow> jsstring \<Rightarrow> CryptoKey \<Rightarrow> error + jsstring" where
  "decryptString P ciphertext iv key =
     (case atob_bytes ciphertext of
        Inl e \<Rightarrow> Inl e
      | Inr ciphertextArray \<Rightarrow>
          (case atob_bytes iv of
             Inl e \<Rightarrow> Inl e
           | Inr ivArray \<Rightarrow>
               (case subtle_decrypt P \<lparr>gcm_iv = ivArray, gcm_additionalData = None\<rparr> key
                       ciphertextArray of
                  Inl e \<Rightarrow> Inl e
                | Inr plaintext \<Rightarrow> Inr (TextDecoder_decode plaintext))))"

definition chunkSize :: nat where
  "chunkSize = 2 * 1024 * 1024"

text \<open>
  The loop of \<open>encryptFileStream\<close>: every chunk is handed to \<^verbatim>\<open>crypto.subtle.encrypt\<close>
  with the parameters \<^verbatim>\<open>{ name: 'AES-GCM', iv }\<close>, the one \<open>iv\<close> drawn before the loop.
\<close>

function encrypt_chunks ::
  "primitives \<Rightarrow> bytes \<Rightarrow> Blob \<Rightarrow> CryptoKey \<Rightarrow> nat \<Rightarrow> bytes list \<Rightarrow> error + bytes list" where
  "encrypt_chunks P iv file key offset chunks =
     (if offset < blob_size file then
        (case subtle_encrypt P \<lparr>gcm_iv = iv, gcm_additionalData = None\<rparr> key
                (data (blob_slice file offset (offset + chunkSize))) of
           Inl e \<Rightarrow> Inl e
         | Inr encrypted \<Rightarrow>
             encrypt_chunks P iv file key (offset + chunkSize) (chunks @ [encrypted]))
      else Inr chunks)"
  by pat_completeness auto
termination
  by (relation "measure (\<lambda>(P, iv, file, key, offset, chunks). blob_size file - offset)")
     (auto simp: chunkSize_def)

text \<open>Combining the chunks: the total length by \<^verbatim>\<open>reduce\<close>, then one \<^verbatim>\<open>set\<close> per chunk.\<close>

definition totalLength :: "bytes list \<Rightarrow> nat" where
  "totalLength chunks = foldl (\<lambda>sum chunk. sum + length chunk) 0 chunks"

fun set_chunks :: "bytes \<Rightarrow> nat \<Rightarrow> bytes list \<Rightarrow> error + bytes" where
  "set_chunks combined position [] = Inr combined"
| "set_chunks combined position (chunk # rest) =
     (case array_set combined chunk position of
        Inl e \<Rightarrow> Inl e
      | Inr combined' \<Rightarrow> set_chunks combined' (position + length chunk) rest)"

definition combine :: "bytes list \<Rightarrow> error + bytes" where
  "combine chunks = set_chunks (replicate (totalLength chunks) 0) 0 chunks"

definition octet_stream :: string where
  "octet_stream = ''application/octet-stream''"

text \<open>\<open>encryptFileStream\<close> answers the pair (encryptedBlob, iv).\<close>

definition encryptFileStream ::
  "primitives \<Rightarrow> bytes \<Rightarrow> Blob \<Rightarrow> CryptoKey \<Rightarrow> error + (Blob \<times> jsstring)" where
  "encryptFileStream P iv file key =
     (case encrypt_chunks P iv file key 0 [] of
        Inl e \<Rightarrow> Inl e
      | Inr chunks \<Rightarrow>
          (case combine chunks of
             Inl e \<Rightarrow> Inl e
           | Inr combined \<Rightarrow> Inr (\<lparr>data = combined, mime = octet_stream\<rparr>, btoa_bytes iv)))"

function decrypt_chunks ::
  "primitives \<Rightarrow> bytes \<Rightarrow> Blob \<Rightarrow> CryptoKey \<Rightarrow> nat \<Rightarrow> bytes list \<Rightarrow> error + bytes list" where
  "decrypt_chunks P ivArray blob key offset chunks =
     (if offset < blob_size blob then
        (case subtle_decrypt P \<lparr>gcm_iv = ivArray, gcm_additionalData = None\<rparr> key
                (data (blob_slice blob offset (offset + chunkSize))) of
           Inl e \<Rightarrow> Inl e
         | Inr decrypted \<Rightarrow>
             decrypt_chunks P ivArray blob key (offset + chunkSize) (chunks @ [decrypted]))
      else Inr chunks)"
  by pat_completeness auto
termination
  by (relation "measure (\<lambda>(P, ivArray, blob, key, offset, chunks). blob_size blob - offset)")
     (auto simp: chunkSize_def)

definition decryptFileStream ::
  "primitives \<Rightarrow> Blob \<Rightarrow> jsstring \<Rightarrow> CryptoKey \<Rightarrow> error + Blob" where
  "decryptFileStream P blob iv key =
     (case atob_bytes iv of
        Inl e \<Rightarrow> Inl e
      | Inr ivArray \<Rightarrow>
          (case decrypt_chunks P ivArray blob key 0 [] of
             Inl e \<Rightarrow> Inl e
           | Inr chunks \<Rightarrow>
               (case combine chunks of
                  Inl e \<Rightarrow> Inl e
                | Inr combined \<Rightarrow> Inr \<lparr>data = combined, mime = []\<rparr>)))"

definition computeVerifierHash :: "primitives \<Rightarrow> CryptoKey \<Rightarrow> error + jsstring" where
  "computeVerifierHash P key =
     (case subtle_exportKey_raw key of
        Inl e \<Rightarrow> Inl e
      | Inr exported \<Rightarrow> Inr (btoa_bytes (sha256 P exported)))"

text \<open>The body of the \<^verbatim>\<open>try\<close> block of \<open>verifyRoomCode\<close>, and the function with its \<^verbatim>\<open>catch\<close>.\<close>

definition verifyRoomCode_try :: "primitives \<Rightarrow> jsstring \<Rightarrow> jsstring \<Rightarrow> jsstring \<Rightarrow> error + bool" where
  "verifyRoomCode_try P roomCode salt expectedHash =
     (case deriveKey P roomCode (SaltString salt) of
        Inl e \<Rightarrow> Inl e
      | Inr key \<Rightarrow>
          (case computeVerifierHash P key of
             Inl e \<Rightarrow> Inl e
           | Inr hash \<Rightarrow> Inr (hash = expectedHash)))"

definition verifyRoomCode :: "primitives \<Rightarrow> jsstring \<Rightarrow> jsstring \<Rightarrow> jsstring \<Rightarrow> error + bool" where
  "verifyRoomCode P roomCode salt expectedHash =
     (case verifyRoomCode_try P roomCode salt expectedHash of
        Inl e \<Rightarrow> Inr False
      | Inr b \<Rightarrow> Inr b)"

section \<open>Auxiliary notions for the statements\<close>

text \<open>A room key as \<open>deriveKey\<close> makes it: an AES-GCM key that may encrypt and decrypt.\<close>

definition room_key :: "CryptoKey \<Rightarrow> bool" where
  "room_key key \<longleftrightarrow>
     is_aes_gcm (algorithm key) \<and> Encrypt \<in> set (usages key) \<and> Decrypt \<in> set (usages key)"

text \<open>The parameters every call of the module passes to AES-GCM, and the sealed chunk.\<close>

definition gcm_params :: "bytes \<Rightarrow> AesGcmParams" where
  "gcm_params iv = \<lparr>gcm_iv = iv, gcm_additionalData = None\<rparr>"

definition seal :: "primitives \<Rightarrow> CryptoKey \<Rightarrow> bytes \<Rightarrow> bytes \<Rightarrow> bytes" where
  "seal P key iv p = aes_gcm_seal P (handle key) iv [] p"

text \<open>The slices of at most \<open>chunkSize\<close> bytes that both loops cut, from the front.\<close>

function slices :: "bytes \<Rightarrow> bytes list" where
  "slices bs = (if bs = [] then [] else take chunkSize bs # slices (drop chunkSize bs))"
  by pat_completeness auto
termination
  by (relation "measure length") (auto simp: chunkSize_def)

fun open_all :: "primitives \<Rightarrow> bytes \<Rightarrow> CryptoKey \<Rightarrow> bytes list \<Rightarrow> bytes list \<Rightarrow> error + bytes list" where
  "open_all P ivArray key [] chunks = Inr chunks"
| "open_all P ivArray key (c # cs) chunks =
     (case subtle_decrypt P (gcm_params ivArray) key c of
        Inl e \<Rightarrow> Inl e
      | Inr decrypted \<Rightarrow> open_all P ivArray key cs (chunks @ [decrypted]))"

text \<open>
  A list of slices as the decrypting loop cuts them from their concatenation: every slice
  but the last has exactly \<open>chunkSize\<close> bytes, the last is not empty and not longer.
\<close>

fun framed :: "bytes list \<Rightarrow> bool" where
  "framed [] = True"
| "framed [c] = (0 < length c \<and> length c \<le> chunkSize)"
| "framed (c # d # cs) = (length c = chunkSize \<and> framed (d # cs))"

declare encrypt_chunks.simps [simp del]
declare decrypt_chunks.simps [simp del]
declare slices.simps [simp del]

text \<open>
  Key derivation in the words of the specification: PBKDF2 over HMAC-SHA-256 with 200,000
  iterations, applied to the UTF-8 encoding of the room code with the salt, 256 bits out.
\<close>

definition spec_derive :: "primitives \<Rightarrow> jsstring \<Rightarrow> bytes \<Rightarrow> bytes" where
  "spec_derive P roomCode salt =
     pbkdf2_hmac_sha256 P (TextEncoder_encode roomCode) salt 200000 (256 div 8)"

text \<open>
  Unicode scalar values, and the strings that are well-formed UTF-16: every surrogate is
  half of a pair.
\<close>

definition is_scalar :: "nat \<Rightarrow> bool" where
  "is_scalar c \<longleftrightarrow> c < 0x110000 \<and> \<not> (0xD800 \<le> c \<and> c \<le> 0xDFFF)"

fun well_formed :: "jsstring \<Rightarrow> bool" where
  "well_formed [] = True"
| "well_formed [u] = (\<not> high_surrogate u \<and> \<not> low_surrogate u)"
| "well_formed (u # v # rest) =
     (if high_surrogate u then low_surrogate v \<and> well_formed rest
      else \<not> low_surrogate u \<and> well_formed (v # rest))"

text \<open>
  An instance of the primitives with no security at all (the identity as cipher, a
  constant tag, a constant digest): it shows that \<open>gcm_correct\<close> can be met, and the
  concrete evaluations below run on it.
\<close>

definition model_tag :: bytes where
  "model_tag = replicate 16 0xFF"

definition model_primitives :: primitives where
  "model_primitives =
     \<lparr>sha256 = (\<lambda>m. replicate 32 0),
      aes_gcm_seal = (\<lambda>k iv aad p. p @ model_tag),
      aes_gcm_open = (\<lambda>k iv aad c.
        if 16 \<le> length c \<and> drop (length c - 16) c = model_tag
        then Some (take (length c - 16) c) else None)\<rparr>"

definition model_key :: CryptoKey where
  "model_key =
     \<lparr>handle = replicate 32 7, algorithm = AesGcm 256, extractable = False,
      usages = [Encrypt, Decrypt]\<rparr>"

text \<open>
  A second instance, whose tag is the first 16 bytes of the additional data, the nonce and
  the key, in this order, so that what it seals shows the nonce and the additional data it
  was sealed under. The evaluations that are about these two run on it.
\<close>

definition binding_tag :: "bytes \<Rightarrow> bytes \<Rightarrow> bytes \<Rightarrow> bytes" where
  "binding_tag k iv aad = take 16 (aad @ iv @ k @ replicate 16 0)"

definition binding_primitives :: primitives where
  "binding_primitives =
     \<lparr>sha256 = (\<lambda>m. replicate 32 0),
      aes_gcm_seal = (\<lambda>k iv aad p. p @ binding_tag k iv aad),
      aes_gcm_open = (\<lambda>k iv aad c.
        if 16 \<le> length c \<and> drop (length c - 16) c = binding_tag k iv aad
        then Some (take (length c - 16) c) else None)\<rparr>"

section \<open>Base64 round trip\<close>

lemma Suc_Suc_diff_2: "2 \<le> n \<Longrightarrow> Suc (Suc (n - 2)) = n"
  by simp

lemma unsextets3:
  fixes a b c :: byte
  shows "b64_unsextets (drop_bit 2 a # (push_bit 4 (take_bit 2 a) OR drop_bit 4 b) #
     (push_bit 2 (take_bit 4 b) OR drop_bit 6 c) # (take_bit 6 c) # r) = a # b # c # b64_unsextets r"
  apply simp
  apply (intro conjI bit_word_eqI)
    apply (simp_all add: bit_simps)
  subgoal for n by (cases "2 \<le> n") (simp_all add: Suc_Suc_diff_2)
  subgoal for n by (cases "4 \<le> n") simp_all
  subgoal for n by (cases "6 \<le> n") simp_all
  done

lemma unsextets2:
  fixes a b :: byte
  shows "b64_unsextets [drop_bit 2 a, push_bit 4 (take_bit 2 a) OR drop_bit 4 b,
     push_bit 2 (take_bit 4 b)] = [a, b]"
  apply simp
  apply (intro conjI bit_word_eqI)
    apply (simp_all add: bit_simps)
  subgoal for n by (cases "2 \<le> n") (simp_all add: Suc_Suc_diff_2)
  subgoal for n by (cases "4 \<le> n") simp_all
  done

lemma unsextets1:
  fixes a :: byte
  shows "b64_unsextets [drop_bit 2 a, push_bit 4 (take_bit 2 a)] = [a]"
  apply simp
  apply (intro conjI bit_word_eqI)
    apply (simp_all add: bit_simps)
  subgoal for n by (cases "2 \<le> n") (simp_all add: Suc_Suc_diff_2)
  done

lemma unsextets_sextets: "b64_unsextets (b64_sextets bs) = bs"
  by (induction bs rule: b64_sextets.induct)
     (simp_all add: unsextets3 unsextets2 unsextets1 del: b64_unsextets.simps, simp)

lemma b64_value_char: "i < 64 \<Longrightarrow> b64_value (b64_char i) = Some i"
  by (auto simp: b64_value_def b64_char_def Let_def unat_of_nat simp del: of_nat_add of_nat_diff)

lemma unat_lt64I:
  fixes w :: byte
  assumes "take_bit 6 w = w"
  shows "unat w < 64"
proof -
  have "unat (take_bit 6 w) = take_bit 6 (unat w)"
    by (simp add: unsigned_take_bit_eq)
  also have "\<dots> < 2 ^ 6"
    by (rule take_bit_nat_less_exp)
  finally show ?thesis
    using assms by simp
qed

lemma bit_byte_bound: "bit (w::byte) n \<Longrightarrow> n < 8"
  using bit_imp_le_length [of w n] by simp

lemma sextets_lt: "s \<in> set (b64_sextets bs) \<Longrightarrow> unat s < 64"
proof (induction bs arbitrary: s rule: b64_sextets.induct)
  case (1 a b c rest)
  have "unat (drop_bit 2 a) < 64" "unat (push_bit 4 (take_bit 2 a) OR drop_bit 4 b) < 64"
       "unat (push_bit 2 (take_bit 4 b) OR drop_bit 6 c) < 64" "unat (take_bit 6 c) < 64"
    by (rule unat_lt64I; rule bit_word_eqI; auto simp: bit_simps dest: bit_byte_bound)+
  with 1 show ?case by auto
next
  case (2 a b)
  have "unat (drop_bit 2 a) < 64" "unat (push_bit 4 (take_bit 2 a) OR drop_bit 4 b) < 64"
       "unat (push_bit 2 (take_bit 4 b)) < 64"
    by (rule unat_lt64I; rule bit_word_eqI; auto simp: bit_simps dest: bit_byte_bound)+
  with 2 show ?case by auto
next
  case (3 a)
  have "unat (drop_bit 2 a) < 64" "unat (push_bit 4 (take_bit 2 a)) < 64"
    by (rule unat_lt64I; rule bit_word_eqI; auto simp: bit_simps dest: bit_byte_bound)+
  with 3 show ?case by auto
qed simp

lemma b64_length_padded: "\<exists>k. length (b64_sextets bs) + b64_padding bs = 4 * k"
proof (induction bs rule: b64_sextets.induct)
  case (1 a b c rest)
  then obtain k where "length (b64_sextets rest) + b64_padding rest = 4 * k" ..
  then have "length (b64_sextets (a # b # c # rest)) + b64_padding (a # b # c # rest) = 4 * Suc k"
    by simp
  then show ?case ..
next
  case (2 a b)
  have "length (b64_sextets [a, b]) + b64_padding [a, b] = 4 * 1" by simp
  then show ?case ..
next
  case (3 a)
  have "length (b64_sextets [a]) + b64_padding [a] = 4 * 1" by simp
  then show ?case ..
next
  case 4
  have "length (b64_sextets []) + b64_padding [] = 4 * 0" by simp
  then show ?case ..
qed

lemma b64_length_sextets:
  "\<exists>k. length (b64_sextets bs) = 4 * k \<or> length (b64_sextets bs) = 4 * k + 2 \<or>
       length (b64_sextets bs) = 4 * k + 3"
proof (induction bs rule: b64_sextets.induct)
  case (1 a b c rest)
  then obtain k where "length (b64_sextets rest) = 4 * k \<or> length (b64_sextets rest) = 4 * k + 2 \<or>
       length (b64_sextets rest) = 4 * k + 3" ..
  then have "length (b64_sextets (a # b # c # rest)) = 4 * Suc k \<or>
      length (b64_sextets (a # b # c # rest)) = 4 * Suc k + 2 \<or>
      length (b64_sextets (a # b # c # rest)) = 4 * Suc k + 3"
    by auto
  then show ?case ..
next
  case (2 a b)
  have "length (b64_sextets [a, b]) = 4 * 0 + 3" by simp
  then show ?case by blast
next
  case (3 a)
  have "length (b64_sextets [a]) = 4 * 0 + 2" by simp
  then show ?case by blast
next
  case 4
  have "length (b64_sextets []) = 4 * 0" by simp
  then show ?case by blast
qed

lemma b64_padding_le: "b64_padding bs \<le> 2"
  by (induction bs rule: b64_padding.induct) simp_all

lemma b64_char_not_pad: "b64_char i \<noteq> 61"
  by (auto simp: b64_char_def word_eq_iff_unsigned [where ?'a = nat] unat_of_nat
      simp del: of_nat_add of_nat_diff)

lemma b64_char_not_ws: "\<not> ascii_whitespace (b64_char i)"
  by (auto simp: b64_char_def ascii_whitespace_def word_eq_iff_unsigned [where ?'a = nat]
      unat_of_nat simp del: of_nat_add of_nat_diff)

lemma pad_not_ws: "\<not> ascii_whitespace 61"
  by (simp add: ascii_whitespace_def)

lemma strip_padding_pad:
  assumes "61 \<notin> set X" "p \<le> 2" "(length X + p) mod 4 = 0"
  shows "strip_padding (X @ replicate p 61) = X"
proof -
  have nodrop: "drop n X \<noteq> 61 # ys" for n ys
    using assms(1) by (metis in_set_dropD list.set_intros(1))
  consider "p = 0" | "p = 1" | "p = 2" using assms(2) by linarith
  then show ?thesis
  proof cases
    case 1
    then show ?thesis using assms(3) nodrop by (simp add: strip_padding_def)
  next
    case 2
    then show ?thesis using assms(3) nodrop [of "length X - Suc 0" "[]"]
      by (auto simp: strip_padding_def)
  next
    case 3
    then show ?thesis using assms(3)
      by (simp add: strip_padding_def numeral_2_eq_2)
  qed
qed

lemma those_values_chars:
  "\<forall>s \<in> set ss. unat s < 64 \<Longrightarrow>
   those_values (map (\<lambda>s. b64_char (unat s)) ss) = Some (map unat ss)"
  by (induction ss) (simp_all add: b64_value_char)

lemma atob_btoa: "atob_bytes (btoa_bytes bs) = Inr bs"
proof -
  let ?X = "map (\<lambda>s. b64_char (unat s)) (b64_sextets bs)"
  have nows: "filter (\<lambda>c. \<not> ascii_whitespace c) (btoa_bytes bs) = btoa_bytes bs"
    by (auto simp: btoa_bytes_def b64_char_not_ws pad_not_ws filter_id_conv)
  obtain k where "length (b64_sextets bs) + b64_padding bs = 4 * k"
    using b64_length_padded by blast
  then have len: "(length ?X + b64_padding bs) mod 4 = 0"
    by simp
  have "61 \<notin> set ?X"
    by (auto simp: b64_char_not_pad)
  then have strip: "strip_padding (btoa_bytes bs) = ?X"
    unfolding btoa_bytes_def using len b64_padding_le by (intro strip_padding_pad) simp_all
  obtain j where "length (b64_sextets bs) = 4 * j \<or> length (b64_sextets bs) = 4 * j + 2 \<or>
       length (b64_sextets bs) = 4 * j + 3"
    using b64_length_sextets by blast
  moreover have "(4 * j) mod 4 = 0" "(4 * j + 2) mod 4 = 2" "(4 * j + 3) mod 4 = 3"
    by presburger+
  ultimately have len1: "length ?X mod 4 \<noteq> 1"
    by auto
  have vals: "those_values ?X = Some (map unat (b64_sextets bs))"
    by (rule those_values_chars) (simp add: sextets_lt)
  show ?thesis
    using len1
    by (simp add: atob_bytes_def Let_def nows strip vals comp_def unsextets_sextets
        del: length_map)
qed

section \<open>Slices, combining, and the two loops\<close>

lemma chunkSize_pos: "0 < chunkSize"
  by (simp add: chunkSize_def)

lemma blob_slice_data: "data (blob_slice b start (start + n)) = take n (drop start (data b))"
proof (cases "start + n \<le> length (data b)")
  case True
  then show ?thesis
    by (simp add: blob_slice_def blob_size_def min_absorb1)
next
  case False
  show ?thesis
  proof (cases "start \<le> length (data b)")
    case True
    with False show ?thesis
      by (simp add: blob_slice_def blob_size_def min_absorb1 min_absorb2)
  next
    case False
    then show ?thesis
      by (simp add: blob_slice_def blob_size_def)
  qed
qed

lemma slices_Nil: "slices [] = []"
  by (simp add: slices.simps)

lemma slices_Cons: "bs \<noteq> [] \<Longrightarrow> slices bs = take chunkSize bs # slices (drop chunkSize bs)"
  by (subst slices.simps) simp

lemma slices_single: "bs \<noteq> [] \<Longrightarrow> length bs \<le> chunkSize \<Longrightarrow> slices bs = [bs]"
  by (simp add: slices_Cons slices_Nil)

lemma slices_append:
  assumes "length a = chunkSize"
  shows "slices (a @ rest) = a # slices rest"
proof -
  have "a \<noteq> []"
    using assms chunkSize_pos by auto
  then show ?thesis
    using assms by (simp add: slices_Cons)
qed

lemma slices_concat: "framed cs \<Longrightarrow> slices (concat cs) = cs"
proof (induction cs rule: framed.induct)
  case 1
  then show ?case by (simp add: slices_Nil)
next
  case (2 c)
  then show ?case by (simp add: slices_single)
next
  case (3 c d cs)
  then show ?case by (simp add: slices_append)
qed

lemma foldl_lengths: "foldl (\<lambda>sum chunk. sum + length chunk) a cs = a + sum_list (map length cs)"
  by (induction cs arbitrary: a) simp_all

lemma totalLength_sum: "totalLength chunks = sum_list (map length chunks)"
  by (simp add: totalLength_def foldl_lengths)

lemma set_chunks_concat:
  "length fill = sum_list (map length chunks) \<Longrightarrow>
   set_chunks (pre @ fill) (length pre) chunks = Inr (pre @ concat chunks)"
proof (induction chunks arbitrary: pre fill)
  case Nil
  then show ?case by simp
next
  case (Cons c cs)
  have fits: "array_set (pre @ fill) c (length pre) = Inr ((pre @ c) @ drop (length c) fill)"
    using Cons.prems by (simp add: array_set_def)
  have "length (drop (length c) fill) = sum_list (map length cs)"
    using Cons.prems by simp
  from Cons.IH [OF this, of "pre @ c"] show ?case
    by (simp add: fits)
qed

lemma combine_concat: "combine chunks = Inr (concat chunks)"
  using set_chunks_concat [of "replicate (totalLength chunks) 0" chunks "[]"]
  by (simp add: combine_def totalLength_sum)

lemma subtle_encrypt_room_key:
  "room_key key \<Longrightarrow> subtle_encrypt P (gcm_params iv) key p = Inr (seal P key iv p)"
  by (simp add: subtle_encrypt_def room_key_def gcm_params_def seal_def additional_data_def)

lemma subtle_decrypt_sealed:
  "gcm_correct P \<Longrightarrow> room_key key \<Longrightarrow>
   subtle_decrypt P (gcm_params iv) key (seal P key iv p) = Inr p"
  by (simp add: subtle_decrypt_def room_key_def gcm_params_def seal_def additional_data_def
      gcm_correct_def)

lemma encrypt_chunks_slices:
  assumes "room_key key"
  shows "encrypt_chunks P iv src key offset chunks =
     Inr (chunks @ map (seal P key iv) (slices (drop offset (data src))))"
  using assms
proof (induction P iv src key offset chunks rule: encrypt_chunks.induct)
  case (1 P iv src key offset chunks)
  show ?case
  proof (cases "offset < blob_size src")
    case True
    let ?c = "take chunkSize (drop offset (data src))"
    have enc: "subtle_encrypt P \<lparr>gcm_iv = iv, gcm_additionalData = None\<rparr> key
        (data (blob_slice src offset (offset + chunkSize))) = Inr (seal P key iv ?c)"
      using subtle_encrypt_room_key [OF "1.prems", of P iv ?c]
      by (simp add: blob_slice_data gcm_params_def)
    have ne: "drop offset (data src) \<noteq> []"
      using True by (simp add: blob_size_def)
    have sl: "slices (drop offset (data src)) = ?c # slices (drop (offset + chunkSize) (data src))"
      using slices_Cons [OF ne] by (simp add: add.commute)
    show ?thesis
      using "1.IH" [OF True enc "1.prems"] True
      by (subst encrypt_chunks.simps) (simp add: enc sl)
  next
    case False
    then have "drop offset (data src) = []"
      by (simp add: blob_size_def)
    with False show ?thesis
      by (subst encrypt_chunks.simps) (simp add: slices_Nil)
  qed
qed

lemma decrypt_chunks_slices:
  "decrypt_chunks P ivArray blob key offset chunks =
   open_all P ivArray key (slices (drop offset (data blob))) chunks"
proof (induction P ivArray blob key offset chunks rule: decrypt_chunks.induct)
  case (1 P ivArray blob key offset chunks)
  show ?case
  proof (cases "offset < blob_size blob")
    case True
    let ?c = "take chunkSize (drop offset (data blob))"
    have ne: "drop offset (data blob) \<noteq> []"
      using True by (simp add: blob_size_def)
    have sl: "slices (drop offset (data blob)) = ?c # slices (drop (offset + chunkSize) (data blob))"
      using slices_Cons [OF ne] by (simp add: add.commute)
    show ?thesis
    proof (cases "subtle_decrypt P (gcm_params ivArray) key ?c")
      case (Inl e)
      with True show ?thesis
        by (subst decrypt_chunks.simps) (simp add: sl blob_slice_data gcm_params_def)
    next
      case (Inr decrypted)
      then have "subtle_decrypt P \<lparr>gcm_iv = ivArray, gcm_additionalData = None\<rparr> key
          (data (blob_slice blob offset (offset + chunkSize))) = Inr decrypted"
        by (simp add: blob_slice_data gcm_params_def)
      from "1.IH" [OF True this] Inr True show ?thesis
        by (subst decrypt_chunks.simps) (simp add: sl blob_slice_data gcm_params_def)
    qed
  next
    case False
    then have "drop offset (data blob) = []"
      by (simp add: blob_size_def)
    with False show ?thesis
      by (subst decrypt_chunks.simps) (simp add: slices_Nil)
  qed
qed

lemma open_all_sealed:
  "gcm_correct P \<Longrightarrow> room_key key \<Longrightarrow>
   open_all P iv key (map (seal P key iv) ps) chunks = Inr (chunks @ ps)"
  by (induction ps arbitrary: chunks) (simp_all add: subtle_decrypt_sealed)

lemma model_gcm_correct: "gcm_correct model_primitives"
  by (simp add: gcm_correct_def model_primitives_def model_tag_def)

lemma model_room_key: "room_key model_key"
  by (simp add: room_key_def model_key_def is_aes_gcm_def)

lemma length_seal: "gcm_correct P \<Longrightarrow> length (seal P key iv p) = length p + 16"
  by (simp add: gcm_correct_def seal_def)

lemma encryptFileStream_slices:
  assumes "room_key key"
  shows "encryptFileStream P iv src key =
     Inr (\<lparr>data = concat (map (seal P key iv) (slices (data src))), mime = octet_stream\<rparr>,
          btoa_bytes iv)"
  using encrypt_chunks_slices [OF assms, of P iv src 0 "[]"]
  by (simp add: encryptFileStream_def combine_concat)




lemma seal_eq: "seal P key iv = aes_gcm_seal P (handle key) iv []"
  by (rule ext) (simp add: seal_def)

lemma concat_slices: "concat (slices bs) = bs"
proof (induction bs rule: slices.induct)
  case (1 bs)
  show ?case
  proof (cases "bs = []")
    case True
    then show ?thesis by (simp add: slices_Nil)
  next
    case False
    with "1.IH" show ?thesis by (simp add: slices_Cons)
  qed
qed

lemma slices_bounded: "list_all (\<lambda>c. 0 < length c \<and> length c \<le> chunkSize) (slices bs)"
proof (induction bs rule: slices.induct)
  case (1 bs)
  show ?case
  proof (cases "bs = []")
    case True
    then show ?thesis by (simp add: slices_Nil)
  next
    case False
    with "1.IH" chunkSize_pos show ?thesis by (simp add: slices_Cons)
  qed
qed


section \<open>The file stream: what holds of the loops\<close>

text \<open>
  C10. For every key and every IV (so for every 12-byte one), given in base64 as
  \<open>encryptFileStream\<close> hands it out, \<open>decryptFileStream\<close> of a blob of zero bytes answers an
  empty blob and raises nothing: the loop body never runs, so no tag is ever checked.
\<close>

theorem decryptFileStream_empty_blob:
  "decryptFileStream P \<lparr>data = [], mime = m\<rparr> (btoa_bytes iv) key = Inr \<lparr>data = [], mime = []\<rparr>"
  by (simp add: decryptFileStream_def atob_btoa decrypt_chunks_slices slices_Nil combine_concat)

text \<open>
  C9. A payload of at most \<open>chunkSize - 16\<close> = 2,097,136 bytes is one sealed chunk of at most
  2 MiB, which the decrypting loop reads back as one slice: under a room key and primitives
  that decrypt what they encrypted, \<open>decryptFileStream\<close> of the output of \<open>encryptFileStream\<close>,
  with the IV it returned, answers exactly the bytes of the payload.
\<close>

theorem single_chunk_round_trip:
  assumes "gcm_correct P" and "room_key key" and "blob_size src \<le> chunkSize - 16"
  shows "\<exists>blob. encryptFileStream P iv src key = Inr (blob, btoa_bytes iv) \<and>
           decryptFileStream P blob (btoa_bytes iv) key = Inr \<lparr>data = data src, mime = []\<rparr>"
proof (cases "data src = []")
  case True
  then show ?thesis
    using assms(2)
    by (simp add: encryptFileStream_slices slices_Nil decryptFileStream_def atob_btoa
        decrypt_chunks_slices combine_concat)
next
  case False
  have "length (data src) \<le> chunkSize - 16"
    using assms(3) by (simp add: blob_size_def)
  then have one: "slices (data src) = [data src]" and full: "list_all (\<lambda>p. length p \<le> chunkSize - 16) [data src]"
    using False by (simp_all add: slices_single)
  have fr: "framed [seal P key iv (data src)]"
    using length_seal [OF assms(1), of key iv "data src"] \<open>length (data src) \<le> chunkSize - 16\<close>
    by (simp add: chunkSize_def)
  have "decryptFileStream P \<lparr>data = seal P key iv (data src), mime = octet_stream\<rparr>
          (btoa_bytes iv) key = Inr \<lparr>data = data src, mime = []\<rparr>"
    using slices_concat [OF fr] open_all_sealed [OF assms(1,2), of iv "[data src]" "[]"]
    by (simp add: decryptFileStream_def atob_btoa decrypt_chunks_slices combine_concat)
  then show ?thesis
    using assms(2) by (simp add: encryptFileStream_slices one)
qed

theorem single_chunk_round_trip_witness:
  "gcm_correct model_primitives \<and> room_key model_key \<and>
   blob_size \<lparr>data = [1, 2, 3], mime = []\<rparr> \<le> chunkSize - 16 \<and>
   (\<exists>blob. encryptFileStream model_primitives (replicate 12 0) \<lparr>data = [1, 2, 3], mime = []\<rparr>
              model_key = Inr (blob, btoa_bytes (replicate 12 0)) \<and>
           decryptFileStream model_primitives blob (btoa_bytes (replicate 12 0)) model_key =
             Inr \<lparr>data = [1, 2, 3], mime = []\<rparr>)"
proof -
  have small: "blob_size \<lparr>data = [1, 2, 3], mime = []\<rparr> \<le> chunkSize - 16"
    by (simp add: blob_size_def chunkSize_def)
  show ?thesis
    using single_chunk_round_trip [OF model_gcm_correct model_room_key small, of "replicate 12 0"]
      model_gcm_correct model_room_key small
    by simp
qed

lemma ceil_div_step:
  fixes n c :: nat
  assumes "0 < c" "0 < n"
  shows "(n + c - 1) div c = Suc ((n - c + c - 1) div c)"
proof -
  have "n + c - 1 = (n - 1) + c"
    using assms by simp
  then have "(n + c - 1) div c = ((n - 1) + c) div c"
    by (rule arg_cong)
  also have "\<dots> = Suc ((n - 1) div c)"
    using assms(1) by (simp add: div_add_self2)
  finally have up: "(n + c - 1) div c = Suc ((n - 1) div c)" .
  show ?thesis
  proof (cases "c \<le> n")
    case True
    then have "n - c + c - 1 = n - 1"
      by simp
    then show ?thesis
      by (simp only: up)
  next
    case False
    then have "(n - c + c - 1) div c = 0" "(n - 1) div c = 0"
      using assms(1) by simp_all
    then show ?thesis
      by (simp only: up)
  qed
qed

lemma length_slices: "length (slices bs) = (length bs + chunkSize - 1) div chunkSize"
proof (induction bs rule: slices.induct)
  case (1 bs)
  show ?case
  proof (cases "bs = []")
    case True
    then show ?thesis
      using chunkSize_pos by (simp add: slices_Nil)
  next
    case False
    then have "0 < length bs"
      by simp
    from ceil_div_step [OF chunkSize_pos this] "1.IH" [OF False] show ?thesis
      by (simp add: slices_Cons [OF False])
  qed
qed


lemma slices_two:
  "slices (replicate (Suc chunkSize) x) = [replicate chunkSize x, [x]]"
proof -
  have "replicate (Suc chunkSize) x = replicate chunkSize x @ [x]"
    by (simp add: replicate_append_same)
  moreover have "slices [x] = [[x]]"
    using chunkSize_pos by (simp add: slices_single)
  ultimately show ?thesis
    by (simp add: slices_append del: replicate_Suc)
qed

text \<open>
  C1, as the code has it. \<open>encryptFileStream\<close> draws one IV of 12 bytes per call and
  encrypts every chunk of the stream under it. Whatever the primitives, under a room key
  the blob it returns is the concatenation of the payload's slices of at most 2 MiB, one
  per started 2 MiB, each sealed by AES-GCM under the same key, with that one IV as nonce
  and with empty additional data; the IV it returns is that IV. So all chunks of a stream
  share one (key, nonce) pair, and only a payload of at most one chunk uses its pair once.
\<close>

theorem encryptFileStream_one_nonce:
  assumes "room_key key" and "length iv = IV_LENGTH"
  shows "encryptFileStream P iv src key =
           Inr (\<lparr>data = concat (map (aes_gcm_seal P (handle key) iv []) (slices (data src))),
                 mime = octet_stream\<rparr>, btoa_bytes iv) \<and>
         concat (slices (data src)) = data src \<and>
         list_all (\<lambda>c. 0 < length c \<and> length c \<le> chunkSize) (slices (data src)) \<and>
         length (slices (data src)) = (blob_size src + chunkSize - 1) div chunkSize \<and>
         length iv = 12"
proof -
  have sealed: "encryptFileStream P iv src key =
      Inr (\<lparr>data = concat (map (aes_gcm_seal P (handle key) iv []) (slices (data src))),
            mime = octet_stream\<rparr>, btoa_bytes iv)"
    using assms(1) by (simp add: encryptFileStream_slices seal_eq)
  have count: "length (slices (data src)) = (blob_size src + chunkSize - 1) div chunkSize"
    by (simp add: length_slices blob_size_def)
  have twelve: "length iv = 12"
    using assms(2) by (simp add: IV_LENGTH_def)
  show ?thesis
    by (intro conjI sealed concat_slices slices_bounded count twelve)
qed

theorem encryptFileStream_one_nonce_witness:
  "room_key model_key \<and> length (replicate 12 (0 :: byte)) = IV_LENGTH \<and>
   encryptFileStream binding_primitives (replicate 12 0)
     \<lparr>data = replicate (Suc chunkSize) 7, mime = []\<rparr> model_key =
     Inr (\<lparr>data =
             aes_gcm_seal binding_primitives (handle model_key) (replicate 12 0) []
               (replicate chunkSize 7) @
             aes_gcm_seal binding_primitives (handle model_key) (replicate 12 0) [] [7],
           mime = octet_stream\<rparr>, btoa_bytes (replicate 12 0))"
proof -
  have len: "length (replicate 12 (0 :: byte)) = IV_LENGTH"
    by (simp add: IV_LENGTH_def)
  show ?thesis
    using encryptFileStream_one_nonce [OF model_room_key len, of binding_primitives
        "\<lparr>data = replicate (Suc chunkSize) 7, mime = []\<rparr>"] model_room_key len
    by (simp add: slices_two del: replicate_Suc)
qed

text \<open>
  C1 as stated fails. A payload of 2 MiB + 1 byte has two chunks, and the blob that
  \<open>encryptFileStream\<close> returns for it is the first chunk sealed under the key and the IV of
  the call, followed by the second chunk sealed under the very same key and IV.
\<close>

theorem nonce_reused_across_chunks:
  "encryptFileStream binding_primitives (replicate 12 0)
     \<lparr>data = replicate (chunkSize + 1) 0, mime = []\<rparr> model_key =
     Inr (\<lparr>data =
             aes_gcm_seal binding_primitives (handle model_key) (replicate 12 0) []
               (replicate chunkSize 0) @
             aes_gcm_seal binding_primitives (handle model_key) (replicate 12 0) [] [0],
           mime = octet_stream\<rparr>, btoa_bytes (replicate 12 0))"
  by (simp add: encryptFileStream_slices [OF model_room_key] slices_two seal_def
      del: replicate_Suc)




text \<open>
  C3 does not hold of the code. Each chunk of 2 MiB is sealed to 2 MiB + 16 bytes, yet the
  decrypting loop cuts the blob every 2 MiB: for a payload of more than one chunk its first
  slice is the first sealed chunk without its last 16 bytes. When AES-GCM rejects that
  truncated chunk (its last 16 bytes are ciphertext, not the tag), \<open>decryptFileStream\<close> of
  the output of \<open>encryptFileStream\<close> raises OperationError and returns no bytes at all.
\<close>

theorem multi_chunk_round_trip_fails:
  assumes "gcm_correct P" and "room_key key" and "chunkSize < blob_size src"
    and "aes_gcm_open P (handle key) iv []
           (take chunkSize (seal P key iv (take chunkSize (data src)))) = None"
  shows "\<exists>blob. encryptFileStream P iv src key = Inr (blob, btoa_bytes iv) \<and>
           decryptFileStream P blob (btoa_bytes iv) key = Inl OperationError"
proof -
  let ?c1 = "take chunkSize (data src)"
  let ?rest = "concat (map (seal P key iv) (slices (drop chunkSize (data src))))"
  have ne: "data src \<noteq> []"
    using assms(3) by (auto simp: blob_size_def)
  have sealed: "concat (map (seal P key iv) (slices (data src))) = seal P key iv ?c1 @ ?rest"
    by (simp add: slices_Cons [OF ne])
  have len: "length (seal P key iv ?c1) = chunkSize + 16"
    using assms(3) length_seal [OF assms(1), of key iv ?c1] by (simp add: blob_size_def)
  then have first: "take chunkSize (seal P key iv ?c1 @ ?rest) = take chunkSize (seal P key iv ?c1)"
    by simp
  have "seal P key iv ?c1 @ ?rest \<noteq> []"
    using len by auto
  then have sl: "slices (seal P key iv ?c1 @ ?rest) =
      take chunkSize (seal P key iv ?c1) # slices (drop chunkSize (seal P key iv ?c1 @ ?rest))"
    using slices_Cons [of "seal P key iv ?c1 @ ?rest"] first by simp
  have "16 \<le> chunkSize"
    by (simp add: chunkSize_def)
  then have rejected: "subtle_decrypt P (gcm_params iv) key (take chunkSize (seal P key iv ?c1)) =
      Inl OperationError"
    using assms(2,4) len
    by (simp add: subtle_decrypt_def room_key_def gcm_params_def additional_data_def)
  have "decryptFileStream P \<lparr>data = seal P key iv ?c1 @ ?rest, mime = octet_stream\<rparr>
          (btoa_bytes iv) key = Inl OperationError"
    by (simp add: decryptFileStream_def atob_btoa decrypt_chunks_slices sl rejected)
  then show ?thesis
    using assms(2) by (simp add: encryptFileStream_slices sealed)
qed

theorem multi_chunk_round_trip_fails_witness:
  "gcm_correct model_primitives \<and> room_key model_key \<and>
   chunkSize < blob_size \<lparr>data = replicate (Suc chunkSize) 0, mime = []\<rparr> \<and>
   (\<exists>blob. encryptFileStream model_primitives (replicate 12 0)
              \<lparr>data = replicate (Suc chunkSize) 0, mime = []\<rparr> model_key =
              Inr (blob, btoa_bytes (replicate 12 0)) \<and>
           decryptFileStream model_primitives blob (btoa_bytes (replicate 12 0)) model_key =
             Inl OperationError)"
proof -
  let ?src = "\<lparr>data = replicate (Suc chunkSize) (0 :: byte), mime = []\<rparr>"
  have big: "chunkSize < blob_size ?src"
    by (simp add: blob_size_def)
  have "take chunkSize (data ?src) = replicate chunkSize 0"
    by (simp del: replicate_Suc)
  moreover have "take chunkSize (replicate chunkSize (0 :: byte) @ model_tag) = replicate chunkSize 0"
    by simp
  moreover have "drop (chunkSize - 16) (replicate chunkSize (0 :: byte)) = replicate 16 0"
    by (simp add: chunkSize_def)
  ultimately have rejects: "aes_gcm_open model_primitives (handle model_key) (replicate 12 0) []
      (take chunkSize (seal model_primitives model_key (replicate 12 0)
         (take chunkSize (data ?src)))) = None"
    by (simp add: seal_def model_primitives_def model_tag_def del: replicate_Suc)
  show ?thesis
    using multi_chunk_round_trip_fails [OF model_gcm_correct model_room_key big rejects]
      model_gcm_correct model_room_key big
    by simp
qed

section \<open>Key derivation and the verifier\<close>

lemma deriveKey_bytes:
  "deriveKey P roomCode (SaltBytes salt) =
     Inr \<lparr>handle = spec_derive P roomCode salt, algorithm = AesGcm 256, extractable = False,
          usages = [Encrypt, Decrypt]\<rparr>"
  by (simp add: deriveKey_def subtle_importKey_PBKDF2_def subtle_deriveKey_PBKDF2_def
      PBKDF2_ITERATIONS_def KEY_LENGTH_def spec_derive_def)

lemma deriveKey_string:
  "deriveKey P roomCode (SaltString s) =
     (case atob_bytes s of Inl e \<Rightarrow> Inl e | Inr salt \<Rightarrow> deriveKey P roomCode (SaltBytes salt))"
  by (simp add: deriveKey_def split: sum.splits)

lemma deriveKey_room_key: "deriveKey P roomCode salt = Inr key \<Longrightarrow> room_key key"
  by (cases salt)
     (auto simp: deriveKey_string deriveKey_bytes room_key_def is_aes_gcm_def split: sum.splits)

lemma atob_bytes_error: "atob_bytes s = Inl e \<Longrightarrow> e = InvalidCharacterError"
  by (auto simp: atob_bytes_def Let_def split: if_splits option.splits)

lemma computeVerifierHash_derived:
  "deriveKey P roomCode salt = Inr key \<Longrightarrow> computeVerifierHash P key = Inl InvalidAccessError"
  by (cases salt)
     (auto simp: deriveKey_string deriveKey_bytes computeVerifierHash_def subtle_exportKey_raw_def
       is_aes_gcm_def split: sum.splits)

lemma verifyRoomCode_try_fails:
  "\<exists>e. verifyRoomCode_try P roomCode salt expectedHash = Inl e"
  by (cases "deriveKey P roomCode (SaltString salt)")
     (simp_all add: verifyRoomCode_try_def computeVerifierHash_derived)

text \<open>
  C8. \<open>deriveKey\<close> reads nothing but its arguments and the primitives, and draws no random
  bytes: it is a function of the room code and the salt. With the salt as bytes, and with
  the same salt as the base64 string the callers pass, it always succeeds with the same
  AES-GCM key of 256 bits, whose bytes are PBKDF2 over HMAC-SHA-256 with 200,000 iterations
  of the UTF-8 encoding of the room code under that salt (\<open>spec_derive\<close>).
\<close>

theorem deriveKey_is_pbkdf2:
  "deriveKey P roomCode (SaltBytes salt) =
     Inr \<lparr>handle = spec_derive P roomCode salt, algorithm = AesGcm 256, extractable = False,
          usages = [Encrypt, Decrypt]\<rparr> \<and>
   deriveKey P roomCode (SaltString (btoa_bytes salt)) = deriveKey P roomCode (SaltBytes salt) \<and>
   PBKDF2_ITERATIONS = 200000 \<and> KEY_LENGTH = 256"
  by (simp add: deriveKey_bytes deriveKey_string atob_btoa PBKDF2_ITERATIONS_def KEY_LENGTH_def)

text \<open>
  C6, as the code has it. \<open>deriveKey\<close> checks neither the room code nor the length of the
  salt, and has no error of its own: with a salt given as bytes it returns a key for every
  room code and every salt, and with a salt given as a string it fails exactly when the
  string is not base64, with the decoder's InvalidCharacterError.
\<close>

theorem deriveKey_validates_nothing:
  "(\<exists>key. deriveKey P roomCode (SaltBytes salt) = Inr key) \<and>
   (deriveKey P roomCode (SaltString s) = Inl e \<longleftrightarrow> atob_bytes s = Inl e) \<and>
   (deriveKey P roomCode (SaltString s) = Inl InvalidCharacterError \<or>
    (\<exists>key. deriveKey P roomCode (SaltString s) = Inr key))"
proof -
  have "atob_bytes s = Inl InvalidCharacterError \<or> (\<exists>b. atob_bytes s = Inr b)"
    by (cases "atob_bytes s") (auto dest: atob_bytes_error)
  then show ?thesis
    by (auto simp: deriveKey_string deriveKey_bytes split: sum.splits)
qed

text \<open>
  C6 as stated fails: the empty room code with a salt of 16 bytes, a room code with a salt
  of 3 bytes, and the empty room code with the empty salt each yield a key.
\<close>

theorem deriveKey_accepts_empty_code_and_short_salt:
  "deriveKey model_primitives [] (SaltBytes (replicate 16 0)) =
     Inr \<lparr>handle = spec_derive model_primitives [] (replicate 16 0), algorithm = AesGcm 256,
          extractable = False, usages = [Encrypt, Decrypt]\<rparr> \<and>
   deriveKey model_primitives [0x61] (SaltBytes [1, 2, 3]) =
     Inr \<lparr>handle = spec_derive model_primitives [0x61] [1, 2, 3], algorithm = AesGcm 256,
          extractable = False, usages = [Encrypt, Decrypt]\<rparr> \<and>
   deriveKey model_primitives [] (SaltBytes []) =
     Inr \<lparr>handle = spec_derive model_primitives [] [], algorithm = AesGcm 256,
          extractable = False, usages = [Encrypt, Decrypt]\<rparr>"
  by (simp add: deriveKey_bytes)

text \<open>
  C7. \<open>verifyRoomCode\<close> never rejects: for every room code, salt and expected hash it
  answers a boolean, and whenever key derivation or hashing raises inside it (the body of
  its \<^verbatim>\<open>try\<close> block fails), the answer is false.
\<close>

theorem verifyRoomCode_total:
  "(\<exists>b. verifyRoomCode P roomCode salt expectedHash = Inr b) \<and>
   (deriveKey P roomCode (SaltString salt) = Inl e \<longrightarrow>
      verifyRoomCode P roomCode salt expectedHash = Inr False) \<and>
   (deriveKey P roomCode (SaltString salt) = Inr key \<and> computeVerifierHash P key = Inl e \<longrightarrow>
      verifyRoomCode P roomCode salt expectedHash = Inr False)"
  by (auto simp: verifyRoomCode_def verifyRoomCode_try_def split: sum.splits)

theorem verifyRoomCode_total_witness:
  "deriveKey model_primitives [0x61] (SaltString [0x21]) = Inl InvalidCharacterError \<and>
   verifyRoomCode model_primitives [0x61] [0x21] [] = Inr False"
proof -
  have "atob_bytes [0x21] = Inl InvalidCharacterError"
    by (simp add: atob_bytes_def ascii_whitespace_def strip_padding_def)
  then have "deriveKey model_primitives [0x61] (SaltString [0x21]) = Inl InvalidCharacterError"
    by (simp add: deriveKey_string)
  then show ?thesis
    using verifyRoomCode_total [of model_primitives "[0x61]" "[0x21]" "[]" InvalidCharacterError]
    by simp
qed

text \<open>
  C2 does not hold of the code. \<open>deriveKey\<close> creates its key with \<^verbatim>\<open>extractable\<close> false, and
  \<open>computeVerifierHash\<close> starts by exporting the key: on every key that \<open>deriveKey\<close> returns
  it raises InvalidAccessError. Inside \<open>verifyRoomCode\<close> the same error is caught, so the
  answer is false for every room code, the right one included.
\<close>

theorem verifyRoomCode_always_false:
  "verifyRoomCode P roomCode salt expectedHash = Inr False \<and>
   (case deriveKey P roomCode (SaltString salt) of
      Inl e \<Rightarrow> True
    | Inr key \<Rightarrow> computeVerifierHash P key = Inl InvalidAccessError)"
proof -
  obtain e where "verifyRoomCode_try P roomCode salt expectedHash = Inl e"
    using verifyRoomCode_try_fails by blast
  then show ?thesis
    by (simp add: verifyRoomCode_def computeVerifierHash_derived split: sum.splits)
qed

section \<open>UTF-8 round trip\<close>

lemma unat_byte: "n < 256 \<Longrightarrow> unat (of_nat n :: byte) = n"
  by (simp add: unat_of_nat)

lemma dec1:
  assumes "b0 \<le> 0x7F"
  shows "utf8_decoder utf8_init (of_nat b0 # rest) = b0 # utf8_decoder utf8_init rest"
proof -
  have u0: "unat (of_nat b0 :: byte) = b0" using assms by (simp add: unat_byte)
  show ?thesis using assms by (simp add: u0 utf8_init_def del: of_nat_add)
qed

lemma dec2:
  assumes "0xC2 \<le> b0" "b0 \<le> 0xDF" "0x80 \<le> b1" "b1 \<le> 0xBF"
  shows "utf8_decoder utf8_init (of_nat b0 # of_nat b1 # rest) =
         (b0 mod 32 * 64 + b1 mod 64) # utf8_decoder utf8_init rest"
proof -
  have u0: "unat (of_nat b0 :: byte) = b0" and u1: "unat (of_nat b1 :: byte) = b1"
    using assms by (simp_all add: unat_byte)
  show ?thesis using assms by (simp add: u0 u1 utf8_init_def)
qed

lemma dec3:
  assumes "0xE0 \<le> b0" "b0 \<le> 0xEF"
    "(if b0 = 0xE0 then 0xA0 else 0x80) \<le> b1" "b1 \<le> (if b0 = 0xED then 0x9F else 0xBF)"
    "0x80 \<le> b2" "b2 \<le> 0xBF"
  shows "utf8_decoder utf8_init (of_nat b0 # of_nat b1 # of_nat b2 # rest) =
         ((b0 mod 16 * 64 + b1 mod 64) * 64 + b2 mod 64) # utf8_decoder utf8_init rest"
proof -
  have "b1 < 256" using assms(4) by (simp split: if_splits)
  then have u0: "unat (of_nat b0 :: byte) = b0" and u1: "unat (of_nat b1 :: byte) = b1"
    and u2: "unat (of_nat b2 :: byte) = b2"
    using assms by (simp_all add: unat_byte)
  show ?thesis using assms by (simp add: u0 u1 u2 utf8_init_def split: if_splits)
qed

lemma dec4:
  assumes "0xF0 \<le> b0" "b0 \<le> 0xF4"
    "(if b0 = 0xF0 then 0x90 else 0x80) \<le> b1" "b1 \<le> (if b0 = 0xF4 then 0x8F else 0xBF)"
    "0x80 \<le> b2" "b2 \<le> 0xBF" "0x80 \<le> b3" "b3 \<le> 0xBF"
  shows "utf8_decoder utf8_init (of_nat b0 # of_nat b1 # of_nat b2 # of_nat b3 # rest) =
         (((b0 mod 8 * 64 + b1 mod 64) * 64 + b2 mod 64) * 64 + b3 mod 64) #
         utf8_decoder utf8_init rest"
proof -
  have "b1 < 256" using assms(4) by (simp split: if_splits)
  then have u0: "unat (of_nat b0 :: byte) = b0" and u1: "unat (of_nat b1 :: byte) = b1"
    and u2: "unat (of_nat b2 :: byte) = b2" and u3: "unat (of_nat b3 :: byte) = b3"
    using assms by (simp_all add: unat_byte)
  show ?thesis using assms by (simp add: u0 u1 u2 u3 utf8_init_def split: if_splits)
qed

lemma mod_offset: "q < m \<Longrightarrow> (m * k + q) mod m = (q::nat)"
  by simp

lemma utf8_round_1:
  assumes "c \<le> 0x7F"
  shows "utf8_decoder utf8_init (utf8_bytes c @ rest) = c # utf8_decoder utf8_init rest"
  using assms dec1 [of c rest] by (simp add: utf8_bytes_def)

lemma utf8_round_2:
  assumes "0x80 \<le> c" "c \<le> 0x7FF"
  shows "utf8_decoder utf8_init (utf8_bytes c @ rest) = c # utf8_decoder utf8_init rest"
proof -
  define q where "q = c div 64"
  define r where "r = c mod 64"
  have r: "r < 64" by (simp add: r_def)
  have q: "2 \<le> q" "q \<le> 31"
    using div_le_mono [OF assms(1), of 64] div_le_mono [OF assms(2), of 64] by (simp_all add: q_def)
  have c: "c = 64 * q + r" by (simp add: q_def r_def)
  have bytes: "utf8_bytes c = [of_nat (0xC0 + q), of_nat (0x80 + r)]"
    using assms by (simp add: utf8_bytes_def q_def r_def)
  have m0: "(0xC0 + q) mod 32 = q" using mod_offset [of q 32 6] q by simp
  have m1: "(0x80 + r) mod 64 = r" using mod_offset [of r 64 2] r by simp
  have "utf8_decoder utf8_init (of_nat (0xC0 + q) # of_nat (0x80 + r) # rest) =
      ((0xC0 + q) mod 32 * 64 + (0x80 + r) mod 64) # utf8_decoder utf8_init rest"
    using q r by (intro dec2) simp_all
  then show ?thesis
    unfolding bytes m0 m1 by (simp add: c)
qed

lemma utf8_round_3:
  assumes "0x800 \<le> c" "c \<le> 0xFFFF" "\<not> (0xD800 \<le> c \<and> c \<le> 0xDFFF)"
  shows "utf8_decoder utf8_init (utf8_bytes c @ rest) = c # utf8_decoder utf8_init rest"
proof -
  define d where "d = c div 64"
  define r where "r = c mod 64"
  define q2 where "q2 = d div 64"
  define q1 where "q1 = d mod 64"
  have r: "r < 64" and q1: "q1 < 64" by (simp_all add: r_def q1_def)
  have c: "c = 64 * d + r" by (simp add: d_def r_def)
  have d: "d = 64 * q2 + q1" by (simp add: q2_def q1_def)
  have d_bounds: "32 \<le> d" "d \<le> 1023"
    using div_le_mono [OF assms(1), of 64] div_le_mono [OF assms(2), of 64] by (simp_all add: d_def)
  have q2: "q2 \<le> 15"
    using d d_bounds by linarith
  have lo: "q2 = 0 \<Longrightarrow> 32 \<le> q1"
    using d d_bounds by simp
  have hi: "q2 = 13 \<Longrightarrow> q1 \<le> 31"
  proof -
    assume "q2 = 13"
    then have "0xD000 \<le> c" using c d by simp
    then have "c \<le> 0xD7FF" using assms(3) \<open>q2 = 13\<close> c d r q1 by linarith
    from div_le_mono [OF this, of 64] have "d \<le> 863" by (simp add: d_def)
    then show ?thesis using d \<open>q2 = 13\<close> by simp
  qed
  have "c div 4096 = q2"
    using div_mult2_eq [of c 64 64] by (simp add: q2_def d_def)
  then have bytes: "utf8_bytes c = [of_nat (0xE0 + q2), of_nat (0x80 + q1), of_nat (0x80 + r)]"
    using assms by (simp add: utf8_bytes_def q1_def d_def r_def)
  have m0: "(0xE0 + q2) mod 16 = q2" using mod_offset [of q2 16 14] q2 by simp
  have m1: "(0x80 + q1) mod 64 = q1" using mod_offset [of q1 64 2] q1 by simp
  have m2: "(0x80 + r) mod 64 = r" using mod_offset [of r 64 2] r by simp
  have "utf8_decoder utf8_init (of_nat (0xE0 + q2) # of_nat (0x80 + q1) # of_nat (0x80 + r) # rest) =
      (((0xE0 + q2) mod 16 * 64 + (0x80 + q1) mod 64) * 64 + (0x80 + r) mod 64) #
      utf8_decoder utf8_init rest"
    using q2 q1 r lo hi by (intro dec3) auto
  then show ?thesis
    unfolding bytes m0 m1 m2 by (simp add: c d)
qed

lemma utf8_round_4:
  assumes "0x10000 \<le> c" "c < 0x110000"
  shows "utf8_decoder utf8_init (utf8_bytes c @ rest) = c # utf8_decoder utf8_init rest"
proof -
  define d1 where "d1 = c div 64"
  define r where "r = c mod 64"
  define d2 where "d2 = d1 div 64"
  define q1 where "q1 = d1 mod 64"
  define q3 where "q3 = d2 div 64"
  define q2 where "q2 = d2 mod 64"
  have r: "r < 64" and q1: "q1 < 64" and q2: "q2 < 64" by (simp_all add: r_def q1_def q2_def)
  have c: "c = 64 * d1 + r" by (simp add: d1_def r_def)
  have d1: "d1 = 64 * d2 + q1" by (simp add: d2_def q1_def)
  have d2: "d2 = 64 * q3 + q2" by (simp add: q3_def q2_def)
  have "c \<le> 0x10FFFF" using assms(2) by simp
  from div_le_mono [OF assms(1), of 4096] div_le_mono [OF this, of 4096]
  have "16 \<le> c div 4096" "c div 4096 \<le> 271" by simp_all
  moreover have c4096: "c div 4096 = d2"
    using div_mult2_eq [of c 64 64] by (simp add: d2_def d1_def)
  ultimately have d2_bounds: "16 \<le> d2" "d2 \<le> 271" by simp_all
  have q3: "q3 \<le> 4" using d2 d2_bounds by linarith
  have lo: "q3 = 0 \<Longrightarrow> 16 \<le> q2" using d2 d2_bounds by simp
  have hi: "q3 = 4 \<Longrightarrow> q2 \<le> 15" using d2 d2_bounds by simp
  have "c div 262144 = q3"
    using div_mult2_eq [of c 4096 64] c4096 by (simp add: q3_def)
  then have bytes: "utf8_bytes c =
      [of_nat (0xF0 + q3), of_nat (0x80 + q2), of_nat (0x80 + q1), of_nat (0x80 + r)]"
    using assms c4096 by (simp add: utf8_bytes_def q2_def q1_def d1_def r_def)
  have m0: "(0xF0 + q3) mod 8 = q3" using mod_offset [of q3 8 30] q3 by simp
  have m1: "(0x80 + q2) mod 64 = q2" using mod_offset [of q2 64 2] q2 by simp
  have m2: "(0x80 + q1) mod 64 = q1" using mod_offset [of q1 64 2] q1 by simp
  have m3: "(0x80 + r) mod 64 = r" using mod_offset [of r 64 2] r by simp
  have "utf8_decoder utf8_init
      (of_nat (0xF0 + q3) # of_nat (0x80 + q2) # of_nat (0x80 + q1) # of_nat (0x80 + r) # rest) =
      ((((0xF0 + q3) mod 8 * 64 + (0x80 + q2) mod 64) * 64 + (0x80 + q1) mod 64) * 64 +
        (0x80 + r) mod 64) # utf8_decoder utf8_init rest"
    using q3 q2 q1 r lo hi by (intro dec4) auto
  then show ?thesis
    unfolding bytes m0 m1 m2 m3 by (simp add: c d1 d2)
qed

lemma utf8_decoder_bytes:
  assumes "is_scalar c"
  shows "utf8_decoder utf8_init (utf8_bytes c @ rest) = c # utf8_decoder utf8_init rest"
proof -
  consider "c \<le> 0x7F" | "0x80 \<le> c" "c \<le> 0x7FF" | "0x800 \<le> c" "c \<le> 0xFFFF" | "0x10000 \<le> c"
    by linarith
  then show ?thesis
  proof cases
    case 1
    then show ?thesis by (rule utf8_round_1)
  next
    case 2
    then show ?thesis by (rule utf8_round_2)
  next
    case 3
    then show ?thesis using assms by (intro utf8_round_3) (simp_all add: is_scalar_def)
  next
    case 4
    then show ?thesis using assms by (intro utf8_round_4) (simp_all add: is_scalar_def)
  qed
qed

lemma unit_scalar:
  assumes "\<not> high_surrogate u" "\<not> low_surrogate u"
  shows "is_scalar (unat u)" and "utf16_units (unat u) = [u]"
proof -
  have "unat u < 65536"
    using unsigned_less [of u, where ?'a = nat] by simp
  then show "is_scalar (unat u)" and "utf16_units (unat u) = [u]"
    using assms by (auto simp: is_scalar_def high_surrogate_def low_surrogate_def utf16_units_def)
qed

lemma pair_scalar:
  assumes "high_surrogate u" "low_surrogate v"
  shows "is_scalar (0x10000 + (unat u - 0xD800) * 0x400 + (unat v - 0xDC00))"
    and "utf16_units (0x10000 + (unat u - 0xD800) * 0x400 + (unat v - 0xDC00)) = [u, v]"
    and "0x10000 \<le> 0x10000 + (unat u - 0xD800) * 0x400 + (unat v - 0xDC00)"
proof -
  define hi where "hi = unat u - 0xD800"
  define lo where "lo = unat v - 0xDC00"
  have hi: "hi \<le> 0x3FF" and lo: "lo < 0x400"
    using assms by (auto simp: hi_def lo_def high_surrogate_def low_surrogate_def)
  have u: "0xD800 + hi = unat u" and v: "0xDC00 + lo = unat v"
    using assms by (auto simp: hi_def lo_def high_surrogate_def low_surrogate_def)
  have dv: "(hi * 0x400 + lo) div 0x400 = hi" and md: "(hi * 0x400 + lo) mod 0x400 = lo"
    using lo by simp_all
  have "hi * 0x400 + lo \<le> 0xFFFFF"
    using hi lo by linarith
  then show "is_scalar (0x10000 + (unat u - 0xD800) * 0x400 + (unat v - 0xDC00))"
    unfolding hi_def [symmetric] lo_def [symmetric] by (simp add: is_scalar_def)
  have "of_nat (0xD800 + hi) = u" "of_nat (0xDC00 + lo) = v"
    unfolding u v by simp_all
  then show "utf16_units (0x10000 + (unat u - 0xD800) * 0x400 + (unat v - 0xDC00)) = [u, v]"
    unfolding hi_def [symmetric] lo_def [symmetric] using dv md
    by (simp add: utf16_units_def del: of_nat_add)
  show "0x10000 \<le> 0x10000 + (unat u - 0xD800) * 0x400 + (unat v - 0xDC00)"
    by simp
qed

lemma well_formed_scalars:
  "well_formed s \<Longrightarrow>
   list_all is_scalar (scalar_values s) \<and> concat (map utf16_units (scalar_values s)) = s"
proof (induction s rule: scalar_values.induct)
  case 1
  then show ?case by simp
next
  case (2 u)
  then show ?case by (simp add: unit_scalar)
next
  case (3 u v rest)
  show ?case
  proof (cases "high_surrogate u")
    case True
    with 3 show ?thesis by (simp add: pair_scalar)
  next
    case False
    with 3 show ?thesis by (simp add: unit_scalar)
  qed
qed

lemma utf8_decoder_concat:
  "list_all is_scalar cs \<Longrightarrow> utf8_decoder utf8_init (concat (map utf8_bytes cs)) = cs"
proof (induction cs)
  case Nil
  then show ?case by (simp add: utf8_init_def)
next
  case (Cons c cs)
  then show ?case by (simp add: utf8_decoder_bytes)
qed

lemma utf8_decoder_bom:
  "utf8_decoder utf8_init (0xEF # 0xBB # 0xBF # rest) = 0xFEFF # utf8_decoder utf8_init rest"
  by (simp add: utf8_init_def)

lemma no_bom_bytes:
  assumes "is_scalar c" "c \<noteq> 0xFEFF"
  shows "take 3 (utf8_bytes c @ rest) \<noteq> [0xEF, 0xBB, 0xBF]"
proof
  let ?X = "utf8_bytes c @ rest"
  assume "take 3 ?X = [0xEF, 0xBB, 0xBF]"
  then have "?X = 0xEF # 0xBB # 0xBF # drop 3 ?X"
    using append_take_drop_id [of 3 ?X] by simp
  then have "utf8_decoder utf8_init ?X = 0xFEFF # utf8_decoder utf8_init (drop 3 ?X)"
    using utf8_decoder_bom [of "drop 3 ?X"] by simp
  then show False
    using utf8_decoder_bytes [OF assms(1), of rest] assms(2) by simp
qed

lemma unat_not_bom:
  fixes u :: "16 word"
  assumes "u \<noteq> 0xFEFF"
  shows "unat u \<noteq> 0xFEFF"
proof
  assume "unat u = 0xFEFF"
  then have "of_nat (unat u) = (of_nat 0xFEFF :: 16 word)"
    by simp
  then show False
    using assms by simp
qed

lemma first_scalar_not_bom:
  assumes "well_formed s" "take 1 s \<noteq> [0xFEFF]" "scalar_values s = c # cs"
  shows "c \<noteq> 0xFEFF"
proof (cases s rule: scalar_values.cases)
  case 1
  with assms show ?thesis by simp
next
  case (2 u)
  with assms have "u \<noteq> 0xFEFF" "c = unat u" by auto
  then show ?thesis
    by (simp add: unat_not_bom)
next
  case (3 u v rest)
  show ?thesis
  proof (cases "high_surrogate u")
    case True
    with 3 assms have "c = 0x10000 + (unat u - 0xD800) * 0x400 + (unat v - 0xDC00)"
      by (auto split: if_splits)
    then show ?thesis by simp
  next
    case False
    with 3 assms have "u \<noteq> 0xFEFF" "c = unat u" by (auto split: if_splits)
    then show ?thesis
      by (simp add: unat_not_bom)
  qed
qed

lemma text_round_trip:
  assumes "well_formed s" "take 1 s \<noteq> [0xFEFF]"
  shows "TextDecoder_decode (TextEncoder_encode s) = s"
proof -
  from well_formed_scalars [OF assms(1)]
  have sc: "list_all is_scalar (scalar_values s)"
    and units: "concat (map utf16_units (scalar_values s)) = s" by simp_all
  have "strip_bom (TextEncoder_encode s) = TextEncoder_encode s"
  proof (cases "scalar_values s")
    case Nil
    then show ?thesis by (simp add: TextEncoder_encode_def strip_bom_def)
  next
    case (Cons c cs)
    then have "is_scalar c" using sc by simp
    moreover have "c \<noteq> 0xFEFF" using first_scalar_not_bom [OF assms Cons] .
    ultimately show ?thesis
      using no_bom_bytes [of c "concat (map utf8_bytes cs)"] Cons
      by (simp add: TextEncoder_encode_def strip_bom_def)
  qed
  then show ?thesis
    by (simp add: TextDecoder_decode_def TextEncoder_encode_def utf8_decoder_concat [OF sc] units)
qed

section \<open>Text messages\<close>

lemma encryptString_room_key:
  "room_key key \<Longrightarrow>
   encryptString P iv plaintext key =
     Inr (btoa_bytes (seal P key iv (TextEncoder_encode plaintext)), btoa_bytes iv)"
  using subtle_encrypt_room_key [of key P iv "TextEncoder_encode plaintext"]
  by (simp add: encryptString_def gcm_params_def)

lemma decryptString_sealed:
  "gcm_correct P \<Longrightarrow> room_key key \<Longrightarrow>
   decryptString P (btoa_bytes (seal P key iv bs)) (btoa_bytes iv) key =
     Inr (TextDecoder_decode bs)"
  using subtle_decrypt_sealed [of P key iv bs]
  by (simp add: decryptString_def atob_btoa gcm_params_def)

lemma encode_bom_hi: "TextEncoder_encode [0xFEFF, 0x68, 0x69] = [0xEF, 0xBB, 0xBF, 0x68, 0x69]"
  by (simp add: TextEncoder_encode_def utf8_bytes_def high_surrogate_def low_surrogate_def)

lemma decode_bom_hi: "TextDecoder_decode [0xEF, 0xBB, 0xBF, 0x68, 0x69] = [0x68, 0x69]"
  by (simp add: TextDecoder_decode_def strip_bom_def utf8_init_def utf16_units_def)

lemma string_round_trip_without_bom:
  assumes "gcm_correct P" and "room_key key" and "well_formed p" and "take 1 p \<noteq> [0xFEFF]"
  shows "\<exists>ciphertext. encryptString P iv p key = Inr (ciphertext, btoa_bytes iv) \<and>
           decryptString P ciphertext (btoa_bytes iv) key = Inr p"
  using assms
  by (simp add: encryptString_room_key decryptString_sealed text_round_trip)

text \<open>
  C5 does not hold of the code. A string that starts with U+FEFF is encoded with the bytes
  EF BB BF in front, and \<^verbatim>\<open>new TextDecoder().decode\<close> takes exactly these bytes for a byte
  order mark and drops them: \<open>decryptString\<close> of the encryption of U+FEFF followed by ``hi''
  answers ``hi'', one code unit short of the plaintext. In the model a well-formed string
  that does not start with U+FEFF comes back exactly (\<open>string_round_trip_without_bom\<close>);
  the model takes the spread of the ciphertext into \<^verbatim>\<open>String.fromCharCode\<close> to succeed,
  which an engine refuses for a long message, so that lemma says nothing about those.
\<close>

theorem decryptString_drops_leading_bom:
  assumes "gcm_correct P" and "room_key key"
  shows "\<exists>ciphertext. encryptString P iv [0xFEFF, 0x68, 0x69] key = Inr (ciphertext, btoa_bytes iv) \<and>
           decryptString P ciphertext (btoa_bytes iv) key = Inr [0x68, 0x69]"
  using assms
  by (simp add: encryptString_room_key decryptString_sealed encode_bom_hi decode_bom_hi)

theorem decryptString_drops_leading_bom_witness:
  "gcm_correct model_primitives \<and> room_key model_key \<and>
   (\<exists>ciphertext. encryptString model_primitives (replicate 12 0) [0xFEFF, 0x68, 0x69] model_key =
        Inr (ciphertext, btoa_bytes (replicate 12 0)) \<and>
      decryptString model_primitives ciphertext (btoa_bytes (replicate 12 0)) model_key =
        Inr [0x68, 0x69])"
  using decryptString_drops_leading_bom [OF model_gcm_correct model_room_key, of "replicate 12 0"]
    model_gcm_correct model_room_key
  by simp

end
